theory Spec2Isabelle
  imports Main "HOL-Library.Multiset"
begin

section \<open>JavaScript strings\<close>

text \<open>
  A JavaScript string is a sequence of code units; it is modelled by \<^typ>\<open>string\<close>, one
  \<^typ>\<open>char\<close> per code unit (code units below 256). Every character the code tests for
  (the backtick, the braces, the letters of \<^verbatim>\<open>json\<close> and \<^verbatim>\<open>Re:\<close>, the ASCII letters and
  digits, white space) lies in that range.
\<close>

definition startsWith :: "string \<Rightarrow> string \<Rightarrow> bool" where
  "startsWith s p = (take (length p) s = p)"

fun js_includes :: "string \<Rightarrow> string \<Rightarrow> bool" where
  "js_includes [] p = (p = [])"
| "js_includes (c # cs) p = (startsWith (c # cs) p \<or> js_includes cs p)"

text \<open>
  \<^verbatim>\<open>String.prototype.trim\<close> removes white space and line terminators from both ends:
  tab, line feed, vertical tab, form feed, carriage return, space and the no-break space
  (the other Unicode spaces lie beyond code unit 255).
\<close>

definition isWhiteSpace :: "char \<Rightarrow> bool" where
  "isWhiteSpace c = (c \<in> set [CHR 0x09, CHR 0x0A, CHR 0x0B, CHR 0x0C, CHR 0x0D, CHR 0x20, CHR 0xA0])"

definition trim :: "string \<Rightarrow> string" where
  "trim s = rev (dropWhile isWhiteSpace (rev (dropWhile isWhiteSpace s)))"

text \<open>
  \<^verbatim>\<open>s.split(sep)\<close> for a non-empty separator: the pieces of \<open>s\<close> between the occurrences of
  \<open>sep\<close>, found from left to right without overlap. \<open>acc\<close> holds the current piece, reversed.
  (The code only splits at the two fence strings; for an empty separator, where JavaScript
  splits into single code units, this function is not used.)
\<close>

function splitFrom :: "string \<Rightarrow> string \<Rightarrow> string \<Rightarrow> string list" where
  "splitFrom sep acc [] = [rev acc]"
| "splitFrom sep acc (c # cs) =
     (if startsWith (c # cs) sep
      then rev acc # splitFrom sep [] (drop (length sep - 1) cs)
      else splitFrom sep (c # acc) cs)"
  by pat_completeness auto
termination
  by (relation "measure (\<lambda>(sep, acc, s). length s)") auto

definition js_split :: "string \<Rightarrow> string \<Rightarrow> string list" where
  "js_split s sep = splitFrom sep [] s"

text \<open>\<^verbatim>\<open>s.substring(0, n)\<close> is \<^term>\<open>take n s\<close>.\<close>

section \<open>Reply drafting: the subject of the reply\<close>

text \<open>
  \<^verbatim>\<open>generateEmailReply\<close>, lines 171-174:
  \<^verbatim>\<open>originalSubject.startsWith('Re:') ? originalSubject : `Re: ${originalSubject}`\<close>
\<close>

definition replySubject :: "string \<Rightarrow> string" where
  "replySubject originalSubject =
     (if startsWith originalSubject ''Re:'' then originalSubject
      else ''Re: '' @ originalSubject)"

section \<open>Values read from JSON\<close>

text \<open>
  The result of \<^verbatim>\<open>JSON.parse\<close> (and of \<^verbatim>\<open>response.json()\<close>): \<^verbatim>\<open>null\<close>, a boolean, a
  number, a string, an array or a plain object. Only whether a number is zero matters to
  the code, so numbers are integers here. An object is the list of its own properties,
  read with \<^const>\<open>map_of\<close>. A value that may be \<^verbatim>\<open>undefined\<close> is an option, with
  \<^term>\<open>None\<close> for \<^verbatim>\<open>undefined\<close>.
\<close>

datatype json =
    JNull
  | JBool bool
  | JNum int
  | JStr string
  | JArr "json list"
  | JObj "(string \<times> json) list"

type_synonym jsval = "json option"

datatype error =
    MissingApiKey
  | NetworkError
  | AuthenticationFailed nat
  | UpstreamError nat
  | InvalidResponseBody
  | ProviderError
  | NoChoices
  | EmptyResponse
  | JsonParseError
  | TypeError

text \<open>Truthiness, as \<^verbatim>\<open>!v\<close> and \<^verbatim>\<open>v || d\<close> test it.\<close>

fun truthy :: "jsval \<Rightarrow> bool" where
  "truthy None = False"
| "truthy (Some JNull) = False"
| "truthy (Some (JBool b)) = b"
| "truthy (Some (JNum n)) = (n \<noteq> 0)"
| "truthy (Some (JStr s)) = (s \<noteq> [])"
| "truthy (Some (JArr xs)) = True"
| "truthy (Some (JObj kvs)) = True"

text \<open>
  Reading the property \<open>name\<close> of a value, \<^verbatim>\<open>v.name\<close> or \<^verbatim>\<open>v[0]\<close>. Reading from \<^verbatim>\<open>null\<close>
  throws a TypeError; a boolean or a number has none of the properties the code reads;
  a string and an array have \<^verbatim>\<open>length\<close> and their elements; an object has its own
  properties. The code reads the names \<^verbatim>\<open>error\<close>, \<^verbatim>\<open>choices\<close>, \<^verbatim>\<open>length\<close>, \<^verbatim>\<open>0\<close>,
  \<^verbatim>\<open>message\<close>, \<^verbatim>\<open>content\<close>, \<^verbatim>\<open>category\<close>, \<^verbatim>\<open>summary\<close> and \<^verbatim>\<open>events\<close>, none of which is
  inherited from a prototype.
\<close>

fun getProp :: "json \<Rightarrow> string \<Rightarrow> error + jsval" where
  "getProp JNull name = Inl TypeError"
| "getProp (JBool b) name = Inr None"
| "getProp (JNum n) name = Inr None"
| "getProp (JStr s) name =
     Inr (if name = ''length'' then Some (JNum (int (length s)))
          else if name = ''0'' then (case s of [] \<Rightarrow> None | c # cs \<Rightarrow> Some (JStr [c]))
          else None)"
| "getProp (JArr xs) name =
     Inr (if name = ''length'' then Some (JNum (int (length xs)))
          else if name = ''0'' then (case xs of [] \<Rightarrow> None | x # ys \<Rightarrow> Some x)
          else None)"
| "getProp (JObj kvs) name = Inr (map_of kvs name)"

text \<open>
  A value inside a template literal, \<^verbatim>\<open>`${v}`\<close>, is converted to a string, and the
  conversion of some values throws a TypeError. \<^verbatim>\<open>null\<close>, booleans, numbers and strings
  convert. An object converts through its \<^verbatim>\<open>toString\<close>: the inherited one returns
  \<^verbatim>\<open>[object Object]\<close>, but an own property \<^verbatim>\<open>toString\<close> hides it, and read from JSON that
  property is not a function, so the conversion throws (the inherited \<^verbatim>\<open>valueOf\<close> returns
  the object itself, which does not help). An array converts by joining its elements,
  \<^verbatim>\<open>null\<close> as the empty string and the others converted in turn.
\<close>

fun toStringThrows :: "json \<Rightarrow> bool" where
  "toStringThrows (JArr xs) = list_ex (\<lambda>x. x \<noteq> JNull \<and> toStringThrows x) xs"
| "toStringThrows (JObj kvs) = (map_of kvs ''toString'' \<noteq> None)"
| "toStringThrows v = False"

section \<open>The enrichment provider\<close>

text \<open>
  What \<^verbatim>\<open>fetch\<close> sends is a fixed envelope (model name, temperature, headers) around a
  prompt, and a prompt is a fixed text around the parts below; only these parts vary.
\<close>

datatype prompt =
    CategorizationPrompt string string
  | ReplyPrompt string string string
  | RefinementPrompt string string string string string

text \<open>
  The outcome of \<^verbatim>\<open>await fetch(...)\<close>: the promise is rejected (no network, no answer), or a
  response arrives with its status and its body; \<^verbatim>\<open>response.json()\<close> yields the body's
  value, or throws when the body is not JSON (\<^term>\<open>None\<close>).
\<close>

datatype fetch_result =
    FetchRejected
  | Response nat "json option"

definition response_ok :: "nat \<Rightarrow> bool" where
  "response_ok status = (200 \<le> status \<and> status \<le> 299)"

text \<open>
  The surroundings of the two provider functions: the environment variable
  \<^verbatim>\<open>OPENROUTER_API\<close>, the provider's answer to each prompt, and \<^verbatim>\<open>JSON.parse\<close> (\<^term>\<open>None\<close>
  when it throws a SyntaxError).
\<close>

record env =
  OPENROUTER_API :: "string option"
  fetch :: "prompt \<Rightarrow> fetch_result"
  JSON_parse :: "string \<Rightarrow> json option"

text \<open>\<^verbatim>\<open>!API_KEY\<close>: the variable is unset or empty.\<close>

definition apiKeyMissing :: "env \<Rightarrow> bool" where
  "apiKeyMissing e = (case OPENROUTER_API e of None \<Rightarrow> True | Some k \<Rightarrow> k = [])"

text \<open>
  Lines 273-308 of \<^verbatim>\<open>analyzeEmail\<close> (the same steps stand in \<^verbatim>\<open>generateEmailReply\<close>,
  lines 132-161): from the outcome of \<^verbatim>\<open>fetch\<close> to the text
  \<^verbatim>\<open>data.choices[0]?.message?.content\<close>, every \<^verbatim>\<open>throw\<close> an \<^term>\<open>Inl\<close>.
  \<open>authCheck\<close> tells whether 401 and 403 get their own error (they do in \<^verbatim>\<open>analyzeEmail\<close>).
  \<open>optChain v name\<close> is \<^verbatim>\<open>v?.name\<close>, which is \<^verbatim>\<open>undefined\<close> when \<open>v\<close> is \<^verbatim>\<open>null\<close> or
  \<^verbatim>\<open>undefined\<close>. A \<open>content\<close> that is truthy and not a string has no method \<^verbatim>\<open>trim\<close>: the
  call throws a TypeError.
\<close>

fun optChain :: "jsval \<Rightarrow> string \<Rightarrow> error + jsval" where
  "optChain None name = Inr None"
| "optChain (Some JNull) name = Inr None"
| "optChain (Some v) name = getProp v name"

definition firstChoiceContent :: "json \<Rightarrow> error + jsval" where
  "firstChoiceContent choices =
     (case getProp choices ''0'' of
        Inl e \<Rightarrow> Inl e
      | Inr c0 \<Rightarrow>
         (case optChain c0 ''message'' of
            Inl e \<Rightarrow> Inl e
          | Inr m \<Rightarrow> optChain m ''content''))"

definition checkedContent :: "jsval \<Rightarrow> error + string" where
  "checkedContent content =
     (if \<not> truthy content then Inl EmptyResponse
      else (case content of
              Some (JStr s) \<Rightarrow> if length (trim s) = 0 then Inl EmptyResponse else Inr s
            | _ \<Rightarrow> Inl TypeError))"

definition choicesContent :: "json \<Rightarrow> error + string" where
  "choicesContent data =
     (case getProp data ''choices'' of
        Inl e \<Rightarrow> Inl e
      | Inr None \<Rightarrow> Inl NoChoices
      | Inr (Some choices) \<Rightarrow>
          if \<not> truthy (Some choices) then Inl NoChoices
          else if getProp choices ''length'' = Inr (Some (JNum 0)) then Inl NoChoices
          else (case firstChoiceContent choices of
                  Inl e \<Rightarrow> Inl e
                | Inr content \<Rightarrow> checkedContent content))"

text \<open>
  Line 297 (and 150): \<^verbatim>\<open>throw new Error(`... ${data.error.message || 'Unknown error'}`)\<close>.
  Building the message converts \<^verbatim>\<open>data.error.message\<close>, when it is truthy, to a string;
  when that conversion throws, the TypeError is thrown instead of the error.
\<close>

definition providerError :: "json \<Rightarrow> error" where
  "providerError err =
     (case getProp err ''message'' of
        Inr (Some m) \<Rightarrow> if truthy (Some m) \<and> toStringThrows m then TypeError else ProviderError
      | _ \<Rightarrow> ProviderError)"

definition responseContent :: "bool \<Rightarrow> fetch_result \<Rightarrow> error + string" where
  "responseContent authCheck r =
     (case r of
        FetchRejected \<Rightarrow> Inl NetworkError
      | Response status payload \<Rightarrow>
          if \<not> response_ok status then
            (if authCheck \<and> (status = 401 \<or> status = 403) then Inl (AuthenticationFailed status)
             else Inl (UpstreamError status))
          else
            (case payload of
               None \<Rightarrow> Inl InvalidResponseBody
             | Some data \<Rightarrow>
                (case getProp data ''error'' of
                   Inl e \<Rightarrow> Inl e
                 | Inr None \<Rightarrow> choicesContent data
                 | Inr (Some err) \<Rightarrow>
                    if truthy (Some err) then Inl (providerError err)
                    else choicesContent data)))"

section \<open>Enrichment: \<^verbatim>\<open>analyzeEmail\<close>\<close>

record AIResponse =
  category :: string
  summary :: json
  events :: json

definition validCategories :: "string list" where
  "validCategories = [''Important-Academics'', ''Important-Deadline'', ''Event'', ''General'']"

text \<open>The result of the \<^verbatim>\<open>catch\<close> block, lines 366-371.\<close>

definition defaultResponse :: AIResponse where
  "defaultResponse =
     \<lparr>category = ''General'', summary = JStr ''Unable to analyze email content.'',
      events = JArr []\<rparr>"

subsection \<open>Extraction of the JSON text, lines 312-326\<close>

text \<open>
  \<^verbatim>\<open>a.split(sep)[i]\<close>: the element, or \<^verbatim>\<open>undefined\<close> when the array is shorter, and then the
  method call on it throws a TypeError.
\<close>

definition piece :: "string list \<Rightarrow> nat \<Rightarrow> error + string" where
  "piece parts i = (if i < length parts then Inr (parts ! i) else Inl TypeError)"

text \<open>\<^verbatim>\<open>jsonText.split(fence)[1].split('```')[0].trim()\<close>\<close>

definition fencedText :: "string \<Rightarrow> string \<Rightarrow> error + string" where
  "fencedText jsonText fence =
     (case piece (js_split jsonText fence) 1 of
        Inl e \<Rightarrow> Inl e
      | Inr rest \<Rightarrow>
         (case piece (js_split rest ''```'') 0 of
            Inl e \<Rightarrow> Inl e
          | Inr inner \<Rightarrow> Inr (trim inner)))"

text \<open>
  \<^verbatim>\<open>jsonText.match(/\{[\s\S]*\}/)\<close>: the match starts at the leftmost opening brace that has
  a closing brace after it. When the first opening brace has none, no later one has, so
  this is the first opening brace of the text. The star is greedy: the match ends at the
  last closing brace.
\<close>

definition braceMatch :: "string \<Rightarrow> string option" where
  "braceMatch s =
     (let t = dropWhile (\<lambda>c. c \<noteq> CHR ''{'') s
      in if CHR ''}'' \<in> set t then Some (rev (dropWhile (\<lambda>c. c \<noteq> CHR ''}'') (rev t)))
         else None)"

definition stripFences :: "string \<Rightarrow> error + string" where
  "stripFences content =
     (let jsonText = trim content
      in if js_includes jsonText ''```json'' then fencedText jsonText ''```json''
         else if js_includes jsonText ''```'' then fencedText jsonText ''```''
         else Inr jsonText)"

definition extractJsonText :: "string \<Rightarrow> error + string" where
  "extractJsonText content =
     (case stripFences content of
        Inl e \<Rightarrow> Inl e
      | Inr jsonText \<Rightarrow>
         (case braceMatch jsonText of
            Some m \<Rightarrow> Inr m
          | None \<Rightarrow> Inr jsonText))"

subsection \<open>Validation of the parsed object, lines 337-354\<close>

text \<open>
  \<^verbatim>\<open>parsed.category = 'General'\<close>: an object or an array takes the property; on a boolean,
  a number or a string the assignment throws a TypeError (the file is a module, hence
  strict code). The result is the category read back afterwards.
\<close>

fun assignGeneral :: "json \<Rightarrow> error + string" where
  "assignGeneral (JObj kvs) = Inr ''General''"
| "assignGeneral (JArr xs) = Inr ''General''"
| "assignGeneral v = Inl TypeError"

text \<open>
  \<^verbatim>\<open>validCategories.includes(parsed.category)\<close> compares by identity of value: only a
  string equal to one of the four names is included.
\<close>

definition validatedCategory :: "json \<Rightarrow> error + string" where
  "validatedCategory parsed =
     (case getProp parsed ''category'' of
        Inl e \<Rightarrow> Inl e
      | Inr (Some (JStr s)) \<Rightarrow> if s \<in> set validCategories then Inr s else assignGeneral parsed
      | Inr other \<Rightarrow> assignGeneral parsed)"

text \<open>\<^verbatim>\<open>v || d\<close>\<close>

fun orElse :: "jsval \<Rightarrow> json \<Rightarrow> json" where
  "orElse None d = d"
| "orElse (Some v) d = (if truthy (Some v) then v else d)"

definition analysisResult :: "json \<Rightarrow> error + AIResponse" where
  "analysisResult parsed =
     (case validatedCategory parsed of
        Inl e \<Rightarrow> Inl e
      | Inr cat \<Rightarrow>
         (case getProp parsed ''summary'' of
            Inl e \<Rightarrow> Inl e
          | Inr s \<Rightarrow>
             (case getProp parsed ''events'' of
                Inl e \<Rightarrow> Inl e
              | Inr ev \<Rightarrow>
                 Inr \<lparr>category = cat,
                      summary = orElse s (JStr ''No summary available''),
                      events = orElse ev (JArr [])\<rparr>)))"

subsection \<open>The function\<close>

text \<open>
  Line 356 logs \<^verbatim>\<open>`... Events: ${analysisResult.events.length}`\<close> before the result is
  returned. \<^verbatim>\<open>events\<close> is truthy there, so reading its \<^verbatim>\<open>length\<close> succeeds; the conversion
  of that value to a string may throw.
\<close>

definition eventsLengthThrows :: "json \<Rightarrow> bool" where
  "eventsLengthThrows ev =
     (case getProp ev ''length'' of
        Inl e \<Rightarrow> True
      | Inr None \<Rightarrow> False
      | Inr (Some v) \<Rightarrow> toStringThrows v)"

definition truncationMarker :: string where
  "truncationMarker = CHR 0x0A # ''[... content truncated ...]''"

definition truncateBody :: "nat \<Rightarrow> string \<Rightarrow> string" where
  "truncateBody maxLength body =
     (if length body > maxLength then take maxLength body @ truncationMarker else body)"

definition truncateSubject :: "string \<Rightarrow> string" where
  "truncateSubject subject =
     (if length subject > 200 then take 200 subject @ ''...'' else subject)"

text \<open>The body of the \<^verbatim>\<open>try\<close> block, lines 193-357; every \<^verbatim>\<open>throw\<close> is an \<^term>\<open>Inl\<close>.\<close>

definition analyzeEmail_try :: "env \<Rightarrow> string \<Rightarrow> string \<Rightarrow> error + AIResponse" where
  "analyzeEmail_try e subject body =
     (if subject = [] \<and> body = [] then
        Inr \<lparr>category = ''General'', summary = JStr ''No email content to analyze.'',
             events = JArr []\<rparr>
      else if apiKeyMissing e then Inl MissingApiKey
      else
        (case responseContent True
                (fetch e (CategorizationPrompt (truncateSubject subject) (truncateBody 4000 body))) of
           Inl err \<Rightarrow> Inl err
         | Inr content \<Rightarrow>
            (case extractJsonText content of
               Inl err \<Rightarrow> Inl err
             | Inr jsonText \<Rightarrow>
                (case JSON_parse e jsonText of
                   None \<Rightarrow> Inl JsonParseError
                 | Some parsed \<Rightarrow>
                    (case analysisResult parsed of
                       Inl err \<Rightarrow> Inl err
                     | Inr r \<Rightarrow> if eventsLengthThrows (events r) then Inl TypeError else Inr r)))))"

text \<open>The whole function: the \<^verbatim>\<open>catch\<close> block logs the error and returns the default.\<close>

definition analyzeEmail :: "env \<Rightarrow> string \<Rightarrow> string \<Rightarrow> AIResponse" where
  "analyzeEmail e subject body =
     (case analyzeEmail_try e subject body of
        Inl err \<Rightarrow> defaultResponse
      | Inr r \<Rightarrow> r)"

section \<open>Reply drafting: \<^verbatim>\<open>generateEmailReply\<close>\<close>

text \<open>The text after the first occurrence of \<open>sep\<close>, if there is one.\<close>

fun afterFirst :: "string \<Rightarrow> string \<Rightarrow> string option" where
  "afterFirst sep [] = (if sep = [] then Some [] else None)"
| "afterFirst sep (c # cs) =
     (if startsWith (c # cs) sep then Some (drop (length sep) (c # cs)) else afterFirst sep cs)"

lemma afterFirst_length: "afterFirst sep s = Some r \<Longrightarrow> length r \<le> length s"
  by (induction s) (auto split: if_splits)

text \<open>
  \<^verbatim>\<open>emailBody.replace(/```[\s\S]*?```/g, '')\<close>: from left to right, each fence together with
  the text up to and including the next fence is removed (the star is lazy); a fence with
  no fence after it stays.
\<close>

function removeFenced :: "string \<Rightarrow> string" where
  "removeFenced [] = []"
| "removeFenced (c # cs) =
     (if startsWith (c # cs) ''```'' then
        (case afterFirst ''```'' (drop 2 cs) of
           Some rest \<Rightarrow> removeFenced rest
         | None \<Rightarrow> c # removeFenced cs)
      else c # removeFenced cs)"
  by pat_completeness auto
termination
proof (relation "measure length")
  show "wf (measure length)" by simp
next
  fix c :: char and cs rest :: string
  assume "afterFirst ''```'' (drop 2 cs) = Some rest"
  then have "length rest \<le> length (drop 2 cs)" by (rule afterFirst_length)
  then show "(rest, c # cs) \<in> measure length" by simp
qed auto

text \<open>
  The function, lines 49-186. The \<^verbatim>\<open>catch\<close> block logs and throws the error again, so a
  failure reaches the caller.
\<close>

definition generateEmailReply ::
  "env \<Rightarrow> string \<Rightarrow> string \<Rightarrow> string \<Rightarrow> string option \<Rightarrow> string option \<Rightarrow> error + string \<times> string" where
  "generateEmailReply e originalSubject originalBody userPrompt refinementRequest currentDraft =
     (if apiKeyMissing e then Inl MissingApiKey
      else
        (let truncatedOriginal = truncateBody 2000 originalBody;
             prompt =
               (case refinementRequest of
                  None \<Rightarrow> ReplyPrompt originalSubject truncatedOriginal userPrompt
                | Some r \<Rightarrow>
                    if r = [] then ReplyPrompt originalSubject truncatedOriginal userPrompt
                    else RefinementPrompt originalSubject truncatedOriginal userPrompt
                           (case currentDraft of None \<Rightarrow> [] | Some d \<Rightarrow> d) r)
         in case responseContent False (fetch e prompt) of
              Inl err \<Rightarrow> Inl err
            | Inr content \<Rightarrow>
                (let emailBody = trim content;
                     emailBody' =
                       (if js_includes emailBody ''```'' then trim (removeFenced emailBody)
                        else emailBody)
                 in Inr (replySubject originalSubject, emailBody'))))"

section \<open>Message parsing: \<^verbatim>\<open>fetchEmailDetails\<close>\<close>

text \<open>
  A JavaScript \<^verbatim>\<open>Date\<close>: a time value in milliseconds since the epoch, or the invalid date,
  whose \<^verbatim>\<open>getTime()\<close> is NaN.
\<close>

datatype jsdate = Date int | InvalidDate

fun isNaN_getTime :: "jsdate \<Rightarrow> bool" where
  "isNaN_getTime (Date t) = False"
| "isNaN_getTime InvalidDate = True"

text \<open>
  Lines 160-174. \<open>imapDate\<close> is the date of the message's attributes (\<^verbatim>\<open>null\<close> when the
  attributes carry none), \<open>parsedDate\<close> is \<^verbatim>\<open>parsed.date\<close> (\<^verbatim>\<open>undefined\<close> when the header has
  none), \<open>now\<close> is the time value of \<^verbatim>\<open>new Date()\<close>. A \<^verbatim>\<open>Date\<close> object is truthy, valid or
  not, so \<^verbatim>\<open>||\<close> only passes over an absent date. All three values are \<^verbatim>\<open>Date\<close> objects,
  so the conversion of line 167 does not apply.
\<close>

definition finalDate :: "jsdate option \<Rightarrow> jsdate option \<Rightarrow> int \<Rightarrow> jsdate" where
  "finalDate imapDate parsedDate now =
     (let d = (case imapDate of
                 Some i \<Rightarrow> i
               | None \<Rightarrow> (case parsedDate of Some p \<Rightarrow> p | None \<Rightarrow> Date now))
      in if isNaN_getTime d then Date now else d)"

text \<open>The fields of the parsed mail that the code reads.\<close>

record ParsedMail =
  messageId :: "string option"
  mail_subject :: "string option"
  from_text :: "string option"
  mail_date :: "jsdate option"

text \<open>A number in a template literal: its decimal digits.\<close>

function showNat :: "nat \<Rightarrow> string" where
  "showNat n =
     (if n < 10 then [''0123456789'' ! n] else showNat (n div 10) @ [''0123456789'' ! (n mod 10)])"
  by pat_completeness auto
termination
  by (relation "measure (\<lambda>n. n)") auto

declare showNat.simps [simp del]

definition showInt :: "int \<Rightarrow> string" where
  "showInt i = (if i < 0 then CHR ''-'' # showNat (nat (- i)) else showNat (nat i))"

fun showTime :: "jsdate \<Rightarrow> string" where
  "showTime (Date t) = showInt t"
| "showTime InvalidDate = ''NaN''"

text \<open>\<^verbatim>\<open>s?.substring(0, 20) || d\<close>: the first twenty code units, or \<open>d\<close> when there are none.\<close>

definition prefixOr :: "string option \<Rightarrow> string \<Rightarrow> string" where
  "prefixOr s d = (case s of None \<Rightarrow> d | Some t \<Rightarrow> if take 20 t = [] then d else take 20 t)"

text \<open>\<^verbatim>\<open>.replace(/[^a-zA-Z0-9-]/g, '-')\<close>\<close>

definition safeChar :: "char \<Rightarrow> bool" where
  "safeChar c =
     (c \<in> set (''abcdefghijklmnopqrstuvwxyz'' @ ''ABCDEFGHIJKLMNOPQRSTUVWXYZ'' @ ''0123456789'' @ ''-''))"

definition sanitize :: "string \<Rightarrow> string" where
  "sanitize s = map (\<lambda>c. if safeChar c then c else CHR ''-'') s"

text \<open>
  Line 179, the \<^verbatim>\<open>id\<close> of the message: \<^verbatim>\<open>parsed.messageId\<close> when it is there and not empty,
  otherwise the sanitized text made of the sequence number, the subject, the time value
  of the final date and the sender.
\<close>

definition derivedId :: "nat \<Rightarrow> ParsedMail \<Rightarrow> jsdate \<Rightarrow> string" where
  "derivedId seqno parsed d =
     sanitize (''email-'' @ showNat seqno @ ''-'' @ prefixOr (mail_subject parsed) ''no-subject''
               @ ''-'' @ showTime d @ ''-'' @ prefixOr (from_text parsed) ''no-sender'')"

definition messageIdentity :: "nat \<Rightarrow> jsdate option \<Rightarrow> ParsedMail \<Rightarrow> int \<Rightarrow> string" where
  "messageIdentity seqno imapDate parsed now =
     (case messageId parsed of
        Some m \<Rightarrow> if m \<noteq> [] then m
                  else derivedId seqno parsed (finalDate imapDate (mail_date parsed) now)
      | None \<Rightarrow> derivedId seqno parsed (finalDate imapDate (mail_date parsed) now))"

section \<open>The routes\<close>

text \<open>
  An \<^verbatim>\<open>Email\<close>. \<open>date\<close> is the time value of its \<^verbatim>\<open>Date\<close>, which \<^verbatim>\<open>fetchEmailDetails\<close> has
  validated. The three optional fields are absent until the message is enriched.
\<close>

record Email =
  email_id :: string
  sender :: string
  subject :: string
  body :: string
  date :: int
  email_category :: "string option"
  email_summary :: "json option"
  extractedEvents :: "json option"

text \<open>The value type of \<^verbatim>\<open>emailSummaryCache\<close>, and the cache, a \<^verbatim>\<open>Map\<close> from ids.\<close>

record cached =
  cached_category :: string
  cached_summary :: json
  cached_extractedEvents :: json

type_synonym cache = "string \<rightharpoonup> cached"

text \<open>
  \<^verbatim>\<open>{category: analysis.category, summary: analysis.summary,
  extractedEvents: analysis.events || []}\<close>
\<close>

definition toCached :: "AIResponse \<Rightarrow> cached" where
  "toCached analysis =
     \<lparr>cached_category = category analysis, cached_summary = summary analysis,
      cached_extractedEvents = orElse (Some (events analysis)) (JArr [])\<rparr>"

text \<open>\<^verbatim>\<open>{...email, category: ..., summary: ..., extractedEvents: ...}\<close>\<close>

definition enrich :: "Email \<Rightarrow> cached \<Rightarrow> Email" where
  "enrich email v =
     email\<lparr>email_category := Some (cached_category v), email_summary := Some (cached_summary v),
           extractedEvents := Some (cached_extractedEvents v)\<rparr>"

text \<open>
  One message of a group, the callback of \<^verbatim>\<open>batch.map\<close>. It runs without interruption up
  to \<^verbatim>\<open>await analyzeEmail(...)\<close>: on a cache hit it returns the enriched message, on a miss
  it starts the analysis. When the analysis has come back it writes the cache and returns.
  \<open>analyze\<close> is \<^verbatim>\<open>analyzeEmail\<close>, which returns a result whatever happens, so the \<^verbatim>\<open>catch\<close>
  block of the callback is never entered.
\<close>

definition taskStart :: "cache \<Rightarrow> Email \<Rightarrow> Email option" where
  "taskStart c email =
     (case c (email_id email) of
        Some v \<Rightarrow> Some (enrich email v)
      | None \<Rightarrow> None)"

definition taskFinish :: "cache \<Rightarrow> Email \<Rightarrow> AIResponse \<Rightarrow> cache \<times> Email" where
  "taskFinish c email analysis =
     (c(email_id email \<mapsto> toCached analysis), enrich email (toCached analysis))"

text \<open>
  A group under \<^verbatim>\<open>Promise.all\<close>, with no other request running: \<^verbatim>\<open>map\<close> starts every
  callback before any analysis comes back, so all members look at the cache as it is when
  the group starts; the misses then finish, here in the order of the group. The results
  keep the order of the group.
\<close>

fun finishAll :: "(string \<Rightarrow> string \<Rightarrow> AIResponse) \<Rightarrow> cache \<Rightarrow> (Email \<times> Email option) list \<Rightarrow> cache \<times> Email list" where
  "finishAll analyze c [] = (c, [])"
| "finishAll analyze c ((email, Some r) # ts) =
     (let (c', rs) = finishAll analyze c ts in (c', r # rs))"
| "finishAll analyze c ((email, None) # ts) =
     (let (c1, r) = taskFinish c email (analyze (subject email) (body email));
          (c', rs) = finishAll analyze c1 ts
      in (c', r # rs))"

definition processGroup :: "(string \<Rightarrow> string \<Rightarrow> AIResponse) \<Rightarrow> cache \<Rightarrow> Email list \<Rightarrow> cache \<times> Email list" where
  "processGroup analyze c members =
     finishAll analyze c (map (\<lambda>email. (email, taskStart c email)) members)"

text \<open>
  \<^verbatim>\<open>for (let i = 0; i < emails.length; i += 2) { batch = emails.slice(i, i + 2); ... }\<close>:
  the groups of two are processed one after the other, the results appended.
\<close>

fun processBatches :: "(string \<Rightarrow> string \<Rightarrow> AIResponse) \<Rightarrow> cache \<Rightarrow> Email list \<Rightarrow> cache \<times> Email list" where
  "processBatches analyze c [] = (c, [])"
| "processBatches analyze c [x] = processGroup analyze c [x]"
| "processBatches analyze c (x # y # zs) =
     (let (c1, rs) = processGroup analyze c [x, y];
          (c', rest) = processBatches analyze c1 zs
      in (c', rs @ rest))"

text \<open>
  \<^verbatim>\<open>emails.sort((a, b) => a.date.getTime() - b.date.getTime())\<close>: the sort of an array is
  stable, so the result is the stable sort by time value.
\<close>

definition sortByDate :: "Email list \<Rightarrow> Email list" where
  "sortByDate emails = sort_key date emails"

text \<open>
  The object given to \<^verbatim>\<open>res.json\<close>; a key that a response does not carry is \<^term>\<open>None\<close>.
  \<open>email_count\<close> is the key \<^verbatim>\<open>count\<close>. (\<^verbatim>\<open>success: true\<close> and the \<^verbatim>\<open>timestamp\<close> of the delta
  response are left out.)
\<close>

record reply =
  emails :: "Email list"
  email_count :: nat
  batchNumber :: "nat option"
  isComplete :: "bool option"
  totalFetched :: "nat option"
  totalExpected :: "nat option"
  newestDate :: "jsdate option"

definition plainReply :: "Email list \<Rightarrow> reply" where
  "plainReply es =
     \<lparr>emails = es, email_count = length es, batchNumber = None, isComplete = None,
      totalFetched = None, totalExpected = None, newestDate = None\<rparr>"

text \<open>
  The routes are modelled from the point where the password has been found in the request
  and \<^verbatim>\<open>fetchUserEmails\<close> has returned \<open>rawEmails\<close>. Each takes the cache and returns it
  with the response.

  \<^verbatim>\<open>GET /\<close> and \<^verbatim>\<open>POST /fetch\<close>, lines 29-117 and 399-487 (the same code).
\<close>

definition fetch_all :: "(string \<Rightarrow> string \<Rightarrow> AIResponse) \<Rightarrow> cache \<Rightarrow> Email list \<Rightarrow> cache \<times> reply" where
  "fetch_all analyze c rawEmails =
     (if length rawEmails = 0 then (c, plainReply [])
      else (let (c', processedEmails) = processBatches analyze c rawEmails
            in (c', plainReply (sortByDate processedEmails))))"

text \<open>
  \<^verbatim>\<open>POST /fetch-new\<close>, lines 149-168: the new messages. \<open>sinceDate\<close> is \<^term>\<open>None\<close> when the
  request has none, otherwise \<^verbatim>\<open>new Date(sinceDate)\<close>; a comparison with the invalid date
  is false.
\<close>

definition newEmails :: "Email list \<Rightarrow> string list \<Rightarrow> jsdate option \<Rightarrow> Email list" where
  "newEmails rawEmails knownEmailIds sinceDate =
     (if length knownEmailIds > 0 then
        filter (\<lambda>email. \<not> (email_id email \<in> set knownEmailIds)) rawEmails
      else
        (case sinceDate of
           Some since \<Rightarrow>
             filter (\<lambda>email. case since of Date t \<Rightarrow> date email > t | InvalidDate \<Rightarrow> False) rawEmails
         | None \<Rightarrow> rawEmails))"

text \<open>Lines 170-253.\<close>

definition fetch_new ::
  "(string \<Rightarrow> string \<Rightarrow> AIResponse) \<Rightarrow> cache \<Rightarrow> Email list \<Rightarrow> string list \<Rightarrow> jsdate option \<Rightarrow> cache \<times> reply" where
  "fetch_new analyze c rawEmails knownEmailIds sinceDate =
     (let (c', processedEmails) =
            processBatches analyze c (sortByDate (newEmails rawEmails knownEmailIds sinceDate));
          sorted = sortByDate processedEmails
      in (c', (plainReply sorted)
                \<lparr>newestDate := (if length sorted > 0 then Some (Date (date (last sorted)))
                                else sinceDate)\<rparr>))"

text \<open>\<^verbatim>\<open>POST /fetch-progressive\<close>, lines 271-385.\<close>

definition fetch_progressive ::
  "(string \<Rightarrow> string \<Rightarrow> AIResponse) \<Rightarrow> cache \<Rightarrow> Email list \<Rightarrow> nat \<Rightarrow> cache \<times> reply" where
  "fetch_progressive analyze c rawEmails n =
     (let startIndex = n * 4;
          limitedEmails = take 40 rawEmails
      in if length limitedEmails = 0 then
           (c, (plainReply [])\<lparr>isComplete := Some True, totalFetched := Some 0,
                               totalExpected := Some 0\<rparr>)
         else if startIndex \<ge> length limitedEmails then
           (c, (plainReply [])\<lparr>isComplete := Some True,
                               totalFetched := Some (length limitedEmails),
                               totalExpected := Some (length limitedEmails)\<rparr>)
         else
           (let batch = take 4 (drop startIndex limitedEmails);
                (c', processedEmails) = processBatches analyze c batch;
                sorted = sortByDate processedEmails
            in (c', (plainReply sorted)
                      \<lparr>batchNumber := Some (n + 1),
                       isComplete := Some (startIndex + length batch \<ge> length limitedEmails),
                       totalFetched := Some (startIndex + length sorted),
                       totalExpected := Some (length limitedEmails)\<rparr>)))"

section \<open>The caller of progressive paging\<close>

text \<open>
  The loop of \<^verbatim>\<open>fetchEmails\<close> in \<^verbatim>\<open>Home.tsx\<close>, lines 51-142: it asks for batch after batch
  until a response is complete or forty messages are there, and keeps of each batch the
  messages whose id it has not seen. The result is the list of the responses received.
  \<open>mailbox\<close> is what \<^verbatim>\<open>fetchUserEmails\<close> returns at every call (no mail arrives meanwhile),
  every request is answered, and no other request touches the cache in between.
\<close>

lemma fetch_progressive_incomplete:
  "isComplete (snd (fetch_progressive analyze c mailbox n)) \<noteq> Some True \<Longrightarrow> n < 10"
  by (auto simp: fetch_progressive_def plainReply_def Let_def split: if_splits prod.splits)

function progressiveLoop ::
  "(string \<Rightarrow> string \<Rightarrow> AIResponse) \<Rightarrow> Email list \<Rightarrow> cache \<Rightarrow> Email list \<Rightarrow> nat \<Rightarrow> bool \<Rightarrow> reply list" where
  "progressiveLoop analyze mailbox c allEmails n complete =
     (if \<not> complete \<and> length allEmails < 40 then
        (let (c', data) = fetch_progressive analyze c mailbox n;
             fresh = filter (\<lambda>newEmail. \<not> list_ex (\<lambda>existing. email_id existing = email_id newEmail) allEmails)
                       (emails data);
             allEmails' = allEmails @ fresh;
             complete' = (isComplete data = Some True \<or> length allEmails' \<ge> 40)
         in data # progressiveLoop analyze mailbox c' allEmails' (n + 1) complete')
      else [])"
  by pat_completeness auto
termination
proof (relation "measure (\<lambda>(analyze, mailbox, c, allEmails, n, complete). if complete then 0 else Suc (11 - n))")
  show "wf (measure (\<lambda>(analyze, mailbox, c, allEmails, n, complete). if complete then 0 else Suc (11 - n)))"
    by simp
next
  fix analyze mailbox c allEmails n complete x c' data fresh all' complete'
  assume a: "\<not> complete \<and> length (allEmails :: Email list) < 40"
    and x: "x = fetch_progressive analyze c mailbox n" and cd: "(c', data) = x"
    and d: "complete' = (isComplete data = Some True \<or> 40 \<le> length (all' :: Email list))"
  show "((analyze, mailbox, c', all', n + 1, complete'), (analyze, mailbox, c, allEmails, n, complete))
        \<in> measure (\<lambda>(analyze, mailbox, c, allEmails, n, complete). if complete then 0 else Suc (11 - n))"
  proof (cases complete')
    case True
    with a show ?thesis by simp
  next
    case False
    with d have "isComplete data \<noteq> Some True" by simp
    moreover have "data = snd (fetch_progressive analyze c mailbox n)"
      using x cd by (metis snd_conv)
    ultimately have "n < 10" using fetch_progressive_incomplete by blast
    with a False show ?thesis by simp
  qed
qed

declare progressiveLoop.simps [simp del]

section \<open>Tasks of several requests, interleaved\<close>

text \<open>
  The process runs one task at a time and switches tasks only at an \<^verbatim>\<open>await\<close>. A state is
  the cache together with the analyses in flight: the messages whose task has missed the
  cache and is waiting for \<^verbatim>\<open>analyzeEmail\<close>, each with the result it will get. A step is one
  uninterrupted piece of one task of any route, for any message and any behaviour of the
  provider:
  \<^item> a task starts and hits the cache: it returns, nothing changes;
  \<^item> a task starts and misses: its analysis is in flight;
  \<^item> an analysis comes back: the task writes the cache and returns.
\<close>

inductive step :: "cache \<times> (Email \<times> AIResponse) list \<Rightarrow> cache \<times> (Email \<times> AIResponse) list \<Rightarrow> bool" where
  hit: "taskStart c email = Some r \<Longrightarrow> step (c, inFlight) (c, inFlight)"
| miss: "taskStart c email = None \<Longrightarrow>
         step (c, inFlight) (c, inFlight @ [(email, analyzeEmail e (subject email) (body email))])"
| finish: "step (c, before @ (email, analysis) # after)
                (fst (taskFinish c email analysis), before @ after)"

section \<open>Auxiliary definitions\<close>

text \<open>A message without its enrichment.\<close>

definition raw :: "Email \<Rightarrow> Email" where
  "raw email = email\<lparr>email_category := None, email_summary := None, extractedEvents := None\<rparr>"

text \<open>The responses to \<open>n\<close> requests for the batches \<open>k\<close>, \<open>k + 1\<close>, ..., one after the other.\<close>

fun pages :: "(string \<Rightarrow> string \<Rightarrow> AIResponse) \<Rightarrow> Email list \<Rightarrow> cache \<Rightarrow> nat \<Rightarrow> nat \<Rightarrow> reply list" where
  "pages analyze mailbox c k 0 = []"
| "pages analyze mailbox c k (Suc n) =
     (let (c', data) = fetch_progressive analyze c mailbox k
      in data # pages analyze mailbox c' (Suc k) n)"

text \<open>The text before the first occurrence of \<open>sep\<close> (all of it when there is none).\<close>

fun beforeFirst :: "string \<Rightarrow> string \<Rightarrow> string" where
  "beforeFirst sep [] = []"
| "beforeFirst sep (c # cs) = (if startsWith (c # cs) sep then [] else c # beforeFirst sep cs)"

text \<open>
  What the fences select from the trimmed answer, said without \<^verbatim>\<open>split\<close>: after the first
  \<^verbatim>\<open>```json\<close>, the text up to the next fence; otherwise after the first \<^verbatim>\<open>```\<close>, the text up to
  the next one; otherwise everything.
\<close>

definition fenceCandidate :: "string \<Rightarrow> string" where
  "fenceCandidate t =
     (case afterFirst ''```json'' t of
        Some r \<Rightarrow> trim (beforeFirst ''```'' (beforeFirst ''```json'' r))
      | None \<Rightarrow>
         (case afterFirst ''```'' t of
            Some r \<Rightarrow> trim (beforeFirst ''```'' r)
          | None \<Rightarrow> t))"





text \<open>Sample data for the examples.\<close>

definition sampleEmail :: Email where
  "sampleEmail =
     \<lparr>email_id = ''m1'', sender = ''dean'', subject = ''Seminar'', body = ''Friday at 4'',
      date = 1000, email_category = None, email_summary = None, extractedEvents = None\<rparr>"

definition sampleMailbox :: "Email list" where
  "sampleMailbox =
     map (\<lambda>i. sampleEmail\<lparr>email_id := replicate i CHR ''x'', date := 40 - int i\<rparr>) [0..<40]"

text \<open>A provider that cannot be reached, and one that answers every prompt with \<^verbatim>\<open>{}\<close>.\<close>

definition providerDown :: env where
  "providerDown =
     \<lparr>OPENROUTER_API = Some ''key'', fetch = (\<lambda>p. FetchRejected), JSON_parse = (\<lambda>t. None)\<rparr>"

definition providerUp :: env where
  "providerUp =
     \<lparr>OPENROUTER_API = Some ''key'',
      fetch = (\<lambda>p. Response 200
                 (Some (JObj [(''choices'', JArr [JObj [(''message'', JObj [(''content'', JStr ''{}'')])]])]))),
      JSON_parse = (\<lambda>t. if t = ''{}'' then Some (JObj []) else None)\<rparr>"



section \<open>Enrichment never raises (C1)\<close>












lemma eventsLengthThrows_example:
  "analysisResult (JObj [(''events'', JObj [(''length'', JObj [(''toString'', JNum 1)])])])
     = Inr \<lparr>category = ''General'', summary = JStr ''No summary available'',
            events = JObj [(''length'', JObj [(''toString'', JNum 1)])]\<rparr>
   \<and> eventsLengthThrows (JObj [(''length'', JObj [(''toString'', JNum 1)])])"
  by (simp add: analysisResult_def validatedCategory_def eventsLengthThrows_def)






section \<open>Progressive paging over forty messages (C2)\<close>

lemma raw_enrich: "raw (enrich email v) = raw email"
  by (simp add: raw_def enrich_def)

lemma finishAll_raw:
  "map raw (snd (finishAll analyze c (map (\<lambda>email. (email, taskStart c0 email)) ms))) = map raw ms"
proof (induction ms arbitrary: c)
  case Nil
  then show ?case by simp
next
  case (Cons m ms)
  show ?case
  proof (cases "taskStart c0 m")
    case None
    let ?c1 = "fst (taskFinish c m (analyze (subject m) (body m)))"
    obtain c2 rs where r: "finishAll analyze ?c1 (map (\<lambda>email. (email, taskStart c0 email)) ms) = (c2, rs)"
      by (cases "finishAll analyze ?c1 (map (\<lambda>email. (email, taskStart c0 email)) ms)")
    from Cons [of ?c1] r have "map raw rs = map raw ms" by simp
    with None r show ?thesis
      by (simp add: taskFinish_def raw_enrich)
  next
    case (Some r)
    then have "raw r = raw m"
      by (auto simp: taskStart_def raw_enrich split: option.splits)
    obtain c2 rs where r: "finishAll analyze c (map (\<lambda>email. (email, taskStart c0 email)) ms) = (c2, rs)"
      by (cases "finishAll analyze c (map (\<lambda>email. (email, taskStart c0 email)) ms)")
    from Cons [of c] r have "map raw rs = map raw ms" by simp
    with Some r \<open>raw r = raw m\<close> show ?thesis by simp
  qed
qed

lemma processGroup_raw: "map raw (snd (processGroup analyze c ms)) = map raw ms"
  by (simp add: processGroup_def finishAll_raw)

lemma processBatches_raw: "map raw (snd (processBatches analyze c ms)) = map raw ms"
proof (induction analyze c ms rule: processBatches.induct)
  case (1 analyze c)
  then show ?case by simp
next
  case (2 analyze c x)
  then show ?case using processGroup_raw [of analyze c "[x]"] by simp
next
  case (3 analyze c x y zs)
  obtain c1 rs where g: "processGroup analyze c [x, y] = (c1, rs)" by (cases "processGroup analyze c [x, y]")
  obtain c2 rest where r: "processBatches analyze c1 zs = (c2, rest)" by (cases "processBatches analyze c1 zs")
  from g have "map raw rs = map raw [x, y]" using processGroup_raw [of analyze c "[x, y]"] by simp
  moreover from 3 g r have "map raw rest = map raw zs" by simp
  ultimately show ?case using g r by simp
qed

lemma fetch_progressive_emails:
  "mset (map raw (emails (snd (fetch_progressive analyze c mailbox k))))
     = mset (map raw (take 4 (drop (k * 4) (take 40 mailbox))))"
proof -
  let ?batch = "take 4 (drop (k * 4) (take 40 mailbox))"
  obtain c' ps where pb: "processBatches analyze c ?batch = (c', ps)"
    by (cases "processBatches analyze c ?batch")
  have "map raw ps = map raw ?batch"
    using processBatches_raw [of analyze c ?batch] pb by simp
  then have "mset (map raw ps) = mset (map raw ?batch)" by (rule arg_cong)
  then have key: "mset (map raw (sortByDate ps)) = mset (map raw ?batch)"
    by (simp add: sortByDate_def)
  show ?thesis
  proof (cases "length (take 40 mailbox) = 0 \<or> length (take 40 mailbox) \<le> k * 4")
    case True
    then show ?thesis
      by (auto simp: fetch_progressive_def plainReply_def Let_def)
  next
    case False
    then show ?thesis
      using pb key by (simp add: fetch_progressive_def plainReply_def Let_def)
  qed
qed

lemma fetch_progressive_length:
  "length (emails (snd (fetch_progressive analyze c mailbox k))) \<le> 4"
proof -
  have "size (mset (map raw (emails (snd (fetch_progressive analyze c mailbox k))))) \<le> 4"
    unfolding fetch_progressive_emails by simp
  then show ?thesis by simp
qed

lemma fetch_progressive_step:
  assumes "length mailbox = 40" and "k < 10"
  shows "batchNumber (snd (fetch_progressive analyze c mailbox k)) = Some (k + 1)"
    and "isComplete (snd (fetch_progressive analyze c mailbox k)) = Some (k = 9)"
  using assms
  by (auto simp: fetch_progressive_def plainReply_def Let_def split: prod.splits)

lemma fetch_progressive_sorted:
  "sorted (map date (emails (snd (fetch_progressive analyze c mailbox k))))"
  by (simp add: fetch_progressive_def plainReply_def sortByDate_def Let_def split: prod.splits)

lemma loop_pages:
  assumes "length mailbox = 40"
  shows "k + n = 10 \<Longrightarrow> 0 < n \<Longrightarrow> length allEmails \<le> 4 * k \<Longrightarrow>
         progressiveLoop analyze mailbox c allEmails k False = pages analyze mailbox c k n"
proof (induction n arbitrary: k c allEmails)
  case 0
  then show ?case by simp
next
  case (Suc n)
  obtain c' data where f: "fetch_progressive analyze c mailbox k = (c', data)"
    by (cases "fetch_progressive analyze c mailbox k")
  let ?fresh = "filter (\<lambda>newEmail. \<not> list_ex (\<lambda>existing. email_id existing = email_id newEmail) allEmails)
                       (emails data)"
  from Suc.prems have k: "k < 10" by simp
  have d: "data = snd (fetch_progressive analyze c mailbox k)" by (simp add: f)
  have len: "length ?fresh \<le> 4"
    using fetch_progressive_length [of analyze c mailbox k] d
    by (metis (no_types, lifting) le_trans length_filter_le)
  have ic: "isComplete data = Some (k = 9)"
    using fetch_progressive_step(2) [OF assms k] d by simp
  have cond: "\<not> False \<and> length allEmails < 40" using Suc.prems k by simp
  show ?case
  proof (cases n)
    case 0
    with Suc.prems have "k = 9" by simp
    with ic have "isComplete data = Some True" by simp
    then have "progressiveLoop analyze mailbox c allEmails k False = [data]"
      using cond f
      by (subst progressiveLoop.simps) (simp add: Let_def progressiveLoop.simps [of _ _ _ _ _ True])
    with 0 f show ?thesis by simp
  next
    case (Suc n')
    with Suc.prems have k9: "k < 9" by simp
    with ic have nc: "isComplete data \<noteq> Some True" by simp
    have l2: "length (allEmails @ ?fresh) \<le> 4 * Suc k" using Suc.prems(3) len by simp
    with k9 have l3: "\<not> 40 \<le> length (allEmails @ ?fresh)" by simp
    have "progressiveLoop analyze mailbox c allEmails k False
            = data # progressiveLoop analyze mailbox c' (allEmails @ ?fresh) (k + 1) False"
      using cond f nc l3
      by (subst progressiveLoop.simps) (simp add: Let_def)
    also have "progressiveLoop analyze mailbox c' (allEmails @ ?fresh) (k + 1) False
            = pages analyze mailbox c' (Suc k) n"
      using Suc.IH [of "Suc k" "allEmails @ ?fresh" c'] Suc.prems Suc l2 by simp
    finally show ?thesis using f by simp
  qed
qed

lemma pages_length: "length (pages analyze mailbox c k n) = n"
  by (induction n arbitrary: c k) (auto split: prod.splits)

lemma pages_nth:
  "j < n \<Longrightarrow> \<exists>c'. pages analyze mailbox c k n ! j = snd (fetch_progressive analyze c' mailbox (k + j))"
proof (induction n arbitrary: c k j)
  case 0
  then show ?case by simp
next
  case (Suc n)
  obtain c1 data where f: "fetch_progressive analyze c mailbox k = (c1, data)"
    by (cases "fetch_progressive analyze c mailbox k")
  show ?case
  proof (cases j)
    case 0
    with f show ?thesis by (auto intro: exI [of _ c])
  next
    case (Suc j')
    with Suc.prems have "j' < n" by simp
    from Suc.IH [OF this, of c1 "Suc k"] Suc f show ?thesis by simp
  qed
qed

lemma pages_mset:
  "mset (map raw (concat (map emails (pages analyze mailbox c k n))))
     = mset (map raw (take (n * 4) (drop (k * 4) (take 40 mailbox))))"
proof (induction n arbitrary: c k)
  case 0
  then show ?case by simp
next
  case (Suc n)
  obtain c1 data where f: "fetch_progressive analyze c mailbox k = (c1, data)"
    by (cases "fetch_progressive analyze c mailbox k")
  have d: "mset (map raw (emails data)) = mset (map raw (take 4 (drop (k * 4) (take 40 mailbox))))"
    using fetch_progressive_emails [of analyze c mailbox k] f by simp
  let ?xs = "drop (k * 4) (take 40 mailbox)"
  have t: "take (Suc n * 4) ?xs = take 4 ?xs @ take (n * 4) (drop 4 ?xs)"
    using take_add [of 4 "n * 4" ?xs] by (simp add: add.commute)
  have dr: "drop 4 ?xs = drop (Suc k * 4) (take 40 mailbox)"
    by (simp add: add.commute)
  have "mset (map raw (concat (map emails (pages analyze mailbox c k (Suc n)))))
          = mset (map raw (emails data))
            + mset (map raw (concat (map emails (pages analyze mailbox c1 (Suc k) n))))"
    using f by simp
  also have "\<dots> = mset (map raw (take 4 ?xs)) + mset (map raw (take (n * 4) (drop 4 ?xs)))"
    unfolding d Suc.IH [of c1 "Suc k"] dr ..
  also have "\<dots> = mset (map raw (take (Suc n * 4) ?xs))"
    unfolding t by simp
  finally show ?case .
qed


text \<open>
  Claim C2. Let the mailbox window hold exactly forty messages and stay the same during
  paging. The caller's loop, started at batch 0 with nothing loaded, receives exactly ten
  responses. The response to batch \<open>k\<close> (for \<open>k\<close> from 0 to 9) carries the batch number
  \<open>k + 1\<close>, is complete exactly when \<open>k = 9\<close>, is sorted by ascending date, and holds the
  enriched messages of the slice from \<open>4 k\<close> up to \<open>4 k + 4\<close>. The concatenation of all
  batches holds every message of the window once (as a multiset it is the window), so when
  the ids of the window are distinct no id occurs twice in it.
\<close>

theorem progressive_paging_40:
  assumes "length mailbox = 40"
  shows "length (progressiveLoop analyze mailbox c [] 0 False) = 10
    \<and> (\<forall>k<10. batchNumber (progressiveLoop analyze mailbox c [] 0 False ! k) = Some (k + 1)
            \<and> isComplete (progressiveLoop analyze mailbox c [] 0 False ! k) = Some (k = 9)
            \<and> sorted (map date (emails (progressiveLoop analyze mailbox c [] 0 False ! k)))
            \<and> mset (map raw (emails (progressiveLoop analyze mailbox c [] 0 False ! k)))
                = mset (map raw (take 4 (drop (k * 4) mailbox))))
    \<and> mset (map raw (concat (map emails (progressiveLoop analyze mailbox c [] 0 False))))
        = mset (map raw mailbox)
    \<and> (distinct (map email_id mailbox) \<longrightarrow>
         distinct (map email_id (concat (map emails (progressiveLoop analyze mailbox c [] 0 False)))))"
proof -
  let ?trace = "progressiveLoop analyze mailbox c [] 0 False"
  have tr: "?trace = pages analyze mailbox c 0 10"
    using loop_pages [OF assms, of 0 10 "[]" analyze c] by simp
  have t40: "take 40 mailbox = mailbox" using assms by simp
  have len: "length ?trace = 10" by (simp add: tr pages_length)
  have each: "batchNumber (?trace ! k) = Some (k + 1) \<and> isComplete (?trace ! k) = Some (k = 9)
            \<and> sorted (map date (emails (?trace ! k)))
            \<and> mset (map raw (emails (?trace ! k))) = mset (map raw (take 4 (drop (k * 4) mailbox)))"
    if k: "k < 10" for k
  proof -
    obtain c' where c': "?trace ! k = snd (fetch_progressive analyze c' mailbox k)"
      using pages_nth [OF k, of analyze mailbox c 0] tr by auto
    show ?thesis
      unfolding c'
      using fetch_progressive_step [OF assms k, of analyze c'] fetch_progressive_sorted [of analyze c' mailbox k]
        fetch_progressive_emails [of analyze c' mailbox k] t40
      by simp
  qed
  have all: "mset (map raw (concat (map emails ?trace))) = mset (map raw mailbox)"
    using pages_mset [of analyze mailbox c 0 10] assms by (simp add: tr)
  have ids: "distinct (map email_id (concat (map emails ?trace)))" if d: "distinct (map email_id mailbox)"
  proof -
    have e: "email_id (raw x) = email_id x" for x by (simp add: raw_def)
    have "mset (map email_id (map raw (concat (map emails ?trace)))) = mset (map email_id (map raw mailbox))"
      using all by (metis mset_map)
    then have "mset (map email_id (concat (map emails ?trace))) = mset (map email_id mailbox)"
      by (simp add: e comp_def)
    with d show ?thesis by (metis mset_eq_imp_distinct_iff)
  qed
  from len each all ids show ?thesis by blast
qed

theorem progressive_paging_40_witness:
  "length sampleMailbox = 40
   \<and> length (progressiveLoop (analyzeEmail providerDown) sampleMailbox Map.empty [] 0 False) = 10
   \<and> isComplete (progressiveLoop (analyzeEmail providerDown) sampleMailbox Map.empty [] 0 False ! 0)
       = Some False
   \<and> isComplete (progressiveLoop (analyzeEmail providerDown) sampleMailbox Map.empty [] 0 False ! 9)
       = Some True
   \<and> batchNumber (progressiveLoop (analyzeEmail providerDown) sampleMailbox Map.empty [] 0 False ! 9)
       = Some 10
   \<and> distinct (map email_id
         (concat (map emails (progressiveLoop (analyzeEmail providerDown) sampleMailbox Map.empty [] 0 False))))"
proof -
  have h: "length sampleMailbox = 40" by (simp add: sampleMailbox_def)
  have d: "distinct (map email_id sampleMailbox)"
    by (simp add: sampleMailbox_def distinct_map comp_def inj_on_def)
  note T = progressive_paging_40 [OF h, of "analyzeEmail providerDown" Map.empty]
  from T have l: "length (progressiveLoop (analyzeEmail providerDown) sampleMailbox Map.empty [] 0 False) = 10"
    by (rule conjunct1)
  from T have e: "\<forall>k<10.
       batchNumber (progressiveLoop (analyzeEmail providerDown) sampleMailbox Map.empty [] 0 False ! k)
         = Some (k + 1)
       \<and> isComplete (progressiveLoop (analyzeEmail providerDown) sampleMailbox Map.empty [] 0 False ! k)
         = Some (k = 9)"
    by blast
  from e have e0: "isComplete (progressiveLoop (analyzeEmail providerDown) sampleMailbox Map.empty [] 0 False ! 0)
         = Some False"
    by auto
  from e have e9: "isComplete (progressiveLoop (analyzeEmail providerDown) sampleMailbox Map.empty [] 0 False ! 9)
         = Some True
       \<and> batchNumber (progressiveLoop (analyzeEmail providerDown) sampleMailbox Map.empty [] 0 False ! 9)
         = Some 10"
    by auto
  from T d have i: "distinct (map email_id
         (concat (map emails (progressiveLoop (analyzeEmail providerDown) sampleMailbox Map.empty [] 0 False))))"
    by blast
  from h l e0 e9 i show ?thesis by blast
qed

section \<open>The output of every route is sorted (C3)\<close>

text \<open>
  Claim C3. For every list of retrieved messages, in any order, and every state of the
  cache, the enriched messages that a route returns are sorted by non-decreasing date:
  for the base fetch, for a page of progressive paging, and for the delta refresh.
\<close>

theorem routes_sorted:
  "sorted (map date (emails (snd (fetch_all analyze c rawEmails))))
   \<and> sorted (map date (emails (snd (fetch_progressive analyze c rawEmails n))))
   \<and> sorted (map date (emails (snd (fetch_new analyze c rawEmails knownEmailIds sinceDate))))"
  by (simp add: fetch_all_def fetch_progressive_def fetch_new_def plainReply_def sortByDate_def
      Let_def split: prod.splits)

theorem routes_sorted_witness:
  "map date (emails (snd (fetch_all (\<lambda>s b. defaultResponse) Map.empty
       [sampleEmail\<lparr>date := 3\<rparr>, sampleEmail\<lparr>date := 1\<rparr>, sampleEmail\<lparr>date := 2\<rparr>]))) = [1, 2, 3]
   \<and> sorted (map date (emails (snd (fetch_all (\<lambda>s b. defaultResponse) Map.empty
       [sampleEmail\<lparr>date := 3\<rparr>, sampleEmail\<lparr>date := 1\<rparr>, sampleEmail\<lparr>date := 2\<rparr>]))))"
  using routes_sorted [of "\<lambda>s b. defaultResponse" Map.empty
      "[sampleEmail\<lparr>date := 3\<rparr>, sampleEmail\<lparr>date := 1\<rparr>, sampleEmail\<lparr>date := 2\<rparr>]"]
  by (simp add: fetch_all_def processGroup_def taskStart_def taskFinish_def enrich_def
      plainReply_def sortByDate_def sampleEmail_def)

section \<open>Delta refresh by known identities (C4)\<close>

text \<open>
  Claim C4. When the request brings a non-empty list of known ids, the new messages are
  exactly the retrieved messages whose id is not in that list. So when every retrieved
  message is known, there is no new message, the returned list is empty, and the cache is
  left as it was.
\<close>

theorem fetch_new_known_ids:
  "(knownEmailIds \<noteq> [] \<longrightarrow>
      newEmails rawEmails knownEmailIds sinceDate
        = filter (\<lambda>email. email_id email \<notin> set knownEmailIds) rawEmails)
   \<and> (knownEmailIds \<noteq> [] \<and> (\<forall>email \<in> set rawEmails. email_id email \<in> set knownEmailIds) \<longrightarrow>
        newEmails rawEmails knownEmailIds sinceDate = []
        \<and> emails (snd (fetch_new analyze c rawEmails knownEmailIds sinceDate)) = []
        \<and> fst (fetch_new analyze c rawEmails knownEmailIds sinceDate) = c)"
proof -
  have a: "newEmails rawEmails knownEmailIds sinceDate
        = filter (\<lambda>email. email_id email \<notin> set knownEmailIds) rawEmails" if "knownEmailIds \<noteq> []"
    using that by (simp add: newEmails_def)
  have b: "newEmails rawEmails knownEmailIds sinceDate = []"
    if "knownEmailIds \<noteq> []" "\<forall>email \<in> set rawEmails. email_id email \<in> set knownEmailIds"
    using that a by (simp add: filter_empty_conv)
  have c: "emails (snd (fetch_new analyze c rawEmails knownEmailIds sinceDate)) = []
        \<and> fst (fetch_new analyze c rawEmails knownEmailIds sinceDate) = c"
    if "newEmails rawEmails knownEmailIds sinceDate = []"
    using that by (simp add: fetch_new_def sortByDate_def plainReply_def)
  from a b c show ?thesis by blast
qed

theorem fetch_new_known_ids_witness:
  "newEmails [sampleEmail] [''m0''] None = [sampleEmail]
   \<and> newEmails [sampleEmail] [''m0'', ''m1''] None = []
   \<and> emails (snd (fetch_new (analyzeEmail providerDown) Map.empty [sampleEmail] [''m0'', ''m1''] None)) = []"
  using fetch_new_known_ids [of "[''m0'']" "[sampleEmail]" None "analyzeEmail providerDown" Map.empty]
    fetch_new_known_ids [of "[''m0'', ''m1'']" "[sampleEmail]" None "analyzeEmail providerDown" Map.empty]
  by (simp add: sampleEmail_def)

section \<open>What happens to a cache entry once written (C5)\<close>

lemma analyze_down:
  "analyzeEmail providerDown ''Seminar'' ''Friday at 4'' = defaultResponse"
  by (simp add: analyzeEmail_def analyzeEmail_try_def providerDown_def apiKeyMissing_def responseContent_def)

lemma analyze_up:
  "analyzeEmail providerUp ''Seminar'' ''Friday at 4''
     = \<lparr>category = ''General'', summary = JStr ''No summary available'', events = JArr []\<rparr>"
  by (simp add: analyzeEmail_def analyzeEmail_try_def providerUp_def apiKeyMissing_def
      responseContent_def response_ok_def choicesContent_def firstChoiceContent_def checkedContent_def
      extractJsonText_def stripFences_def braceMatch_def trim_def isWhiteSpace_def startsWith_def
      analysisResult_def validatedCategory_def eventsLengthThrows_def)

lemma step_keeps:
  assumes "step s s'" and "fst s k = Some v" and "\<forall>p \<in> set (snd s). email_id (fst p) \<noteq> k"
  shows "fst s' k = Some v \<and> (\<forall>p \<in> set (snd s'). email_id (fst p) \<noteq> k)"
  using assms
proof (cases rule: step.cases)
  case (hit c email r inFlight)
  with assms show ?thesis by simp
next
  case (miss c email inFlight e)
  with assms have "email_id email \<noteq> k"
    by (auto simp: taskStart_def split: option.splits)
  with miss assms show ?thesis by simp
next
  case (finish c before email analysis after)
  with assms have "email_id email \<noteq> k" by simp
  with finish assms show ?thesis by (auto simp: taskFinish_def)
qed

lemma steps_keep:
  assumes "step\<^sup>*\<^sup>* s s'" and "fst s k = Some v" and "\<forall>p \<in> set (snd s). email_id (fst p) \<noteq> k"
  shows "fst s' k = Some v \<and> (\<forall>p \<in> set (snd s'). email_id (fst p) \<noteq> k)"
  using assms
proof (induction rule: rtranclp_induct)
  case base
  then show ?case by simp
next
  case (step y z)
  then have "fst y k = Some v \<and> (\<forall>p \<in> set (snd y). email_id (fst p) \<noteq> k)" by simp
  with step_keeps [OF step.hyps(2)] show ?case by blast
qed

lemma finishAll_keeps:
  "c0 k = Some v \<Longrightarrow> c k = Some v \<Longrightarrow>
   fst (finishAll analyze c (map (\<lambda>email. (email, taskStart c0 email)) ms)) k = Some v"
proof (induction ms arbitrary: c)
  case Nil
  then show ?case by simp
next
  case (Cons m ms)
  show ?case
  proof (cases "taskStart c0 m")
    case None
    with Cons.prems have ne: "email_id m \<noteq> k"
      by (auto simp: taskStart_def split: option.splits)
    let ?c1 = "c(email_id m \<mapsto> toCached (analyze (subject m) (body m)))"
    from ne Cons.prems have "?c1 k = Some v" by simp
    with Cons.IH [of ?c1] Cons.prems(1)
    have ih: "fst (finishAll analyze ?c1 (map (\<lambda>email. (email, taskStart c0 email)) ms)) k = Some v"
      by blast
    show ?thesis
      by (simp only: list.map finishAll.simps None taskFinish_def Let_def case_prod_beta fst_conv ih)
  next
    case (Some r)
    with Cons.IH [of c] Cons.prems show ?thesis by (simp add: case_prod_beta)
  qed
qed

lemma processGroup_keeps: "c k = Some v \<Longrightarrow> fst (processGroup analyze c ms) k = Some v"
  by (simp add: processGroup_def finishAll_keeps)

lemma processBatches_keeps: "c k = Some v \<Longrightarrow> fst (processBatches analyze c ms) k = Some v"
proof (induction analyze c ms rule: processBatches.induct)
  case (1 analyze c)
  then show ?case by simp
next
  case (2 analyze c x)
  then show ?case by (simp add: processGroup_keeps)
next
  case (3 analyze c x y zs)
  obtain c1 rs where g: "processGroup analyze c [x, y] = (c1, rs)" by (cases "processGroup analyze c [x, y]")
  with 3(2) have c1: "c1 k = Some v" using processGroup_keeps [of c k v analyze "[x, y]"] by simp
  have "fst (processBatches analyze c1 zs) k = Some v"
    using 3(1) [of "(c1, rs)" c1 rs] g c1 by simp
  with g show ?case by (simp add: case_prod_beta)
qed

text \<open>
  Claim C5, as amended. The claim as stated (no later operation ever replaces an entry by
  a different value, also with tasks interleaved) fails: two tasks for the same id that
  both miss the cache both write, and the later write replaces the earlier one (the
  counterexample follows). What holds: once an id has an entry and no
  analysis for that id is still in flight, no sequence of steps of any tasks changes the
  entry; and a request that runs alone, on any route, keeps every entry that is in the
  cache when it starts.
\<close>

theorem cache_entry_kept:
  "(c k = Some v \<and> (\<forall>p \<in> set inFlight. email_id (fst p) \<noteq> k) \<and> step\<^sup>*\<^sup>* (c, inFlight) (c', inFlight')
      \<longrightarrow> c' k = Some v)
   \<and> (c k = Some v \<longrightarrow>
        fst (fetch_all analyze c rawEmails) k = Some v
        \<and> fst (fetch_progressive analyze c rawEmails n) k = Some v
        \<and> fst (fetch_new analyze c rawEmails knownEmailIds sinceDate) k = Some v)"
proof -
  have a: "c' k = Some v"
    if "c k = Some v" "\<forall>p \<in> set inFlight. email_id (fst p) \<noteq> k" "step\<^sup>*\<^sup>* (c, inFlight) (c', inFlight')"
    using steps_keep [OF that(3), of k v] that(1,2) by simp
  have b: "fst (fetch_all analyze c rawEmails) k = Some v
        \<and> fst (fetch_progressive analyze c rawEmails n) k = Some v
        \<and> fst (fetch_new analyze c rawEmails knownEmailIds sinceDate) k = Some v" if ck: "c k = Some v"
  proof -
    show ?thesis
      using ck
      by (simp add: fetch_all_def fetch_progressive_def fetch_new_def Let_def case_prod_beta
          processBatches_keeps)
  qed
  from a b show ?thesis by blast
qed

theorem cache_entry_kept_witness:
  "step\<^sup>*\<^sup>* ([''m0'' \<mapsto> toCached defaultResponse], [])
         ([''m0'' \<mapsto> toCached defaultResponse,
           ''m1'' \<mapsto> toCached (analyzeEmail providerUp (subject sampleEmail) (body sampleEmail))], [])
   \<and> ([''m0'' \<mapsto> toCached defaultResponse,
        ''m1'' \<mapsto> toCached (analyzeEmail providerUp (subject sampleEmail) (body sampleEmail))]) ''m0''
       = Some (toCached defaultResponse)"
proof -
  let ?c = "[''m0'' \<mapsto> toCached defaultResponse]"
  let ?a = "analyzeEmail providerUp (subject sampleEmail) (body sampleEmail)"
  have "taskStart ?c sampleEmail = None" by (simp add: taskStart_def sampleEmail_def)
  from step.miss [OF this, of "[]" providerUp]
  have 1: "step (?c, []) (?c, [(sampleEmail, ?a)])" by simp
  have 2: "step (?c, [(sampleEmail, ?a)]) (fst (taskFinish ?c sampleEmail ?a), [])"
    using step.finish [of ?c "[]" sampleEmail ?a "[]"] by simp
  have 3: "fst (taskFinish ?c sampleEmail ?a) = ?c(''m1'' \<mapsto> toCached ?a)"
    by (simp add: taskFinish_def sampleEmail_def)
  from 1 2 have s: "step\<^sup>*\<^sup>* (?c, []) (?c(''m1'' \<mapsto> toCached ?a), [])"
    unfolding 3 by (meson rtranclp.rtrancl_into_rtrancl rtranclp.rtrancl_refl)
  with cache_entry_kept [of ?c "''m0''" "toCached defaultResponse" "[]" "?c(''m1'' \<mapsto> toCached ?a)" "[]"]
  show ?thesis by simp
qed

text \<open>
  The counterexample to C5 as stated: starting from the empty cache, two tasks for the
  message \<open>m1\<close> both miss (the provider answers the first and is down for the second); the
  first writes its result, then the second replaces it with a different one.
\<close>

theorem cache_overwritten_counterexample:
  "step\<^sup>*\<^sup>* (Map.empty, [])
      ([''m1'' \<mapsto> toCached (analyzeEmail providerUp (subject sampleEmail) (body sampleEmail))],
       [(sampleEmail, analyzeEmail providerDown (subject sampleEmail) (body sampleEmail))])
   \<and> step ([''m1'' \<mapsto> toCached (analyzeEmail providerUp (subject sampleEmail) (body sampleEmail))],
            [(sampleEmail, analyzeEmail providerDown (subject sampleEmail) (body sampleEmail))])
           ([''m1'' \<mapsto> toCached (analyzeEmail providerDown (subject sampleEmail) (body sampleEmail))], [])
   \<and> toCached (analyzeEmail providerUp (subject sampleEmail) (body sampleEmail))
       \<noteq> toCached (analyzeEmail providerDown (subject sampleEmail) (body sampleEmail))"
proof -
  let ?up = "analyzeEmail providerUp (subject sampleEmail) (body sampleEmail)"
  let ?down = "analyzeEmail providerDown (subject sampleEmail) (body sampleEmail)"
  have m: "taskStart Map.empty sampleEmail = None" by (simp add: taskStart_def)
  from step.miss [OF m, of "[]" providerUp]
  have 1: "step (Map.empty, []) (Map.empty, [(sampleEmail, ?up)])" by simp
  from step.miss [OF m, of "[(sampleEmail, ?up)]" providerDown]
  have 2: "step (Map.empty, [(sampleEmail, ?up)]) (Map.empty, [(sampleEmail, ?up), (sampleEmail, ?down)])"
    by simp
  have 3: "step (Map.empty, [(sampleEmail, ?up), (sampleEmail, ?down)])
                ([''m1'' \<mapsto> toCached ?up], [(sampleEmail, ?down)])"
    using step.finish [of Map.empty "[]" sampleEmail ?up "[(sampleEmail, ?down)]"]
    by (simp add: taskFinish_def sampleEmail_def)
  have 4: "step ([''m1'' \<mapsto> toCached ?up], [(sampleEmail, ?down)]) ([''m1'' \<mapsto> toCached ?down], [])"
    using step.finish [of "[''m1'' \<mapsto> toCached ?up]" "[]" sampleEmail ?down "[]"]
    by (simp add: taskFinish_def sampleEmail_def)
  have 5: "toCached ?up \<noteq> toCached ?down"
    by (simp add: sampleEmail_def analyze_up analyze_down toCached_def defaultResponse_def)
  from 1 2 3 have "step\<^sup>*\<^sup>* (Map.empty, []) ([''m1'' \<mapsto> toCached ?up], [(sampleEmail, ?down)])"
    by (meson rtranclp.rtrancl_into_rtrancl rtranclp.rtrancl_refl)
  with 4 5 show ?thesis by blast
qed

section \<open>The derived identity and the clock (C6)\<close>

lemma messageIdentity_with_date:
  "messageIdentity seqno (Some (Date t)) parsed now = messageIdentity seqno (Some (Date t)) parsed now'"
proof -
  have "finalDate (Some (Date t)) d n = Date t" for d n
    by (simp add: finalDate_def)
  then show ?thesis by (simp add: messageIdentity_def split: option.splits)
qed

text \<open>
  Claim C6 does not hold of the code. A message without a message id, without a date in
  its attributes and without a date header gets the time of parsing in its id: parsed at
  the clock values 1000 and 2000, the same input gets two different ids. The same happens
  when the date of the attributes is invalid, whatever the header says. (With a valid
  date in the attributes the id does not depend on the clock, \<open>messageIdentity_with_date\<close>.)
\<close>

theorem messageIdentity_depends_on_clock:
  "messageIdentity 7 None
      \<lparr>messageId = None, mail_subject = Some ''Hi all'', from_text = None, mail_date = None\<rparr> 1000
     = ''email-7-Hi-all-1000-no-sender''
   \<and> messageIdentity 7 None
      \<lparr>messageId = None, mail_subject = Some ''Hi all'', from_text = None, mail_date = None\<rparr> 2000
     = ''email-7-Hi-all-2000-no-sender''
   \<and> messageIdentity 7 None
        \<lparr>messageId = None, mail_subject = Some ''Hi all'', from_text = None, mail_date = None\<rparr> 1000
      \<noteq> messageIdentity 7 None
        \<lparr>messageId = None, mail_subject = Some ''Hi all'', from_text = None, mail_date = None\<rparr> 2000
   \<and> messageIdentity 7 (Some InvalidDate)
        \<lparr>messageId = None, mail_subject = Some ''Hi all'', from_text = None, mail_date = Some (Date 5)\<rparr> 1000
      \<noteq> messageIdentity 7 (Some InvalidDate)
        \<lparr>messageId = None, mail_subject = Some ''Hi all'', from_text = None, mail_date = Some (Date 5)\<rparr> 2000"
  by (simp add: messageIdentity_def derivedId_def finalDate_def prefixOr_def sanitize_def safeChar_def
      showInt_def showNat.simps)

section \<open>Extraction of the JSON text (C7)\<close>

lemma splitFrom_unfold:
  "sep \<noteq> [] \<Longrightarrow>
   splitFrom sep acc s =
     (rev acc @ beforeFirst sep s) # (case afterFirst sep s of None \<Rightarrow> [] | Some r \<Rightarrow> splitFrom sep [] r)"
proof (induction sep acc s rule: splitFrom.induct)
  case (1 sep acc)
  then show ?case by simp
next
  case (2 sep acc c cs)
  show ?case
  proof (cases "startsWith (c # cs) sep")
    case True
    from 2(3) have "drop (length sep) (c # cs) = drop (length sep - 1) cs"
      by (cases sep) simp_all
    with True show ?thesis by simp
  next
    case False
    with 2 show ?thesis by simp
  qed
qed

lemma js_split_unfold:
  "sep \<noteq> [] \<Longrightarrow>
   js_split s sep = beforeFirst sep s # (case afterFirst sep s of None \<Rightarrow> [] | Some r \<Rightarrow> js_split r sep)"
  unfolding js_split_def using splitFrom_unfold [of sep "[]" s] by simp

lemma js_includes_afterFirst: "js_includes s p = (afterFirst p s \<noteq> None)"
  by (induction s) (auto simp: startsWith_def)

lemma beforeFirst_prefix: "\<exists>rest. s = beforeFirst sep s @ rest"
  by (induction s) auto

lemma startsWith_append: "startsWith x sep \<Longrightarrow> startsWith (x @ y) sep"
proof -
  assume a: "startsWith x sep"
  then have "length sep = length (take (length sep) x)"
    by (simp only: startsWith_def)
  then have "length sep \<le> length x" by simp
  with a show ?thesis by (simp add: startsWith_def)
qed

lemma startsWith_beforeFirst:
  "startsWith (c # beforeFirst sep cs) sep \<Longrightarrow> startsWith (c # cs) sep"
proof -
  assume a: "startsWith (c # beforeFirst sep cs) sep"
  obtain rest where r: "cs = beforeFirst sep cs @ rest" using beforeFirst_prefix by blast
  from startsWith_append [OF a, of rest] r show ?thesis by simp
qed

lemma beforeFirst_idem: "beforeFirst sep (beforeFirst sep s) = beforeFirst sep s"
proof (induction s)
  case Nil
  then show ?case by simp
next
  case (Cons c cs)
  show ?case
  proof (cases "startsWith (c # cs) sep")
    case True
    then show ?thesis by simp
  next
    case False
    then have "\<not> startsWith (c # beforeFirst sep cs) sep"
      using startsWith_beforeFirst by blast
    with False Cons show ?thesis by simp
  qed
qed

lemma fencedText_eq:
  assumes "fence \<noteq> []" and "afterFirst fence s = Some r"
  shows "fencedText s fence = Inr (trim (beforeFirst ''```'' (beforeFirst fence r)))"
proof -
  have 1: "piece (js_split s fence) 1 = Inr (beforeFirst fence r)"
    using assms js_split_unfold [of fence s] js_split_unfold [of fence r]
    by (simp add: piece_def split: option.splits)
  have 2: "piece (js_split (beforeFirst fence r) ''```'') 0 = Inr (beforeFirst ''```'' (beforeFirst fence r))"
    using js_split_unfold [of "''```''" "beforeFirst fence r"] by (simp add: piece_def)
  show ?thesis unfolding fencedText_def 1 by (simp add: 2)
qed

lemma stripFences_eq: "stripFences content = Inr (fenceCandidate (trim content))"
proof (cases "afterFirst ''```json'' (trim content)")
  case (Some r)
  then show ?thesis
    using fencedText_eq [of "''```json''" "trim content" r]
    by (simp add: stripFences_def fenceCandidate_def js_includes_afterFirst)
next
  case None
  show ?thesis
  proof (cases "afterFirst ''```'' (trim content)")
    case (Some r)
    then show ?thesis
      using None fencedText_eq [of "''```''" "trim content" r]
      by (simp add: stripFences_def fenceCandidate_def js_includes_afterFirst beforeFirst_idem)
  next
    case None2: None
    with None show ?thesis
      by (simp add: stripFences_def fenceCandidate_def js_includes_afterFirst)
  qed
qed

lemma braceMatch_span:
  assumes "CHR ''{'' \<notin> set a" and "CHR ''}'' \<notin> set z"
  shows "braceMatch (a @ ''{'' @ m @ ''}'' @ z) = Some (''{'' @ m @ ''}'')"
proof -
  have 1: "dropWhile (\<lambda>c. c \<noteq> CHR ''{'') (a @ ''{'' @ m @ ''}'' @ z) = ''{'' @ m @ ''}'' @ z"
    using assms(1) by (auto simp: dropWhile_append3)
  have 2: "rev (dropWhile (\<lambda>c. c \<noteq> CHR ''}'') (rev (''{'' @ m @ ''}'' @ z))) = ''{'' @ m @ ''}''"
    using assms(2) by (auto simp: dropWhile_append3)
  show ?thesis unfolding braceMatch_def Let_def 1 using 2 by simp
qed

lemma braceMatch_none: "CHR ''{'' \<notin> set s \<or> CHR ''}'' \<notin> set s \<Longrightarrow> braceMatch s = None"
proof -
  assume a: "CHR ''{'' \<notin> set s \<or> CHR ''}'' \<notin> set s"
  have "CHR ''}'' \<notin> set (dropWhile (\<lambda>c. c \<noteq> CHR ''{'') s)"
  proof (cases "CHR ''{'' \<in> set s")
    case True
    with a show ?thesis by (auto dest: set_dropWhileD)
  next
    case False
    then have "\<forall>x\<in>set s. x \<noteq> CHR ''{''" by blast
    then have "dropWhile (\<lambda>c. c \<noteq> CHR ''{'') s = []" by (simp only: dropWhile_eq_Nil_conv)
    then show ?thesis by (simp only: set_simps empty_iff not_False_eq_True)
  qed
  then show ?thesis by (simp add: braceMatch_def)
qed

text \<open>
  Claim C7, as amended. The claim as stated (with a fence, the parsed text is the contents
  of the fenced block; the brace pattern is only the last resort and yields the first
  top-level span) fails (the counterexample follows). What holds: the fences select the
  candidate (after the first \<^verbatim>\<open>```json\<close> the text up to the next fence, otherwise the same
  for a bare fence, otherwise the whole trimmed answer); then, in every case, the brace
  pattern is applied to the candidate: when the candidate has an opening brace with a
  closing brace after it, the text from its first opening brace to its last closing brace
  is parsed, and otherwise the candidate itself. Extraction never fails.
\<close>

theorem extractJsonText_amended:
  "extractJsonText content
     = Inr (case braceMatch (fenceCandidate (trim content)) of
              Some m \<Rightarrow> m
            | None \<Rightarrow> fenceCandidate (trim content))
   \<and> (CHR ''{'' \<notin> set a \<and> CHR ''}'' \<notin> set z \<longrightarrow>
        braceMatch (a @ ''{'' @ m @ ''}'' @ z) = Some (''{'' @ m @ ''}''))
   \<and> (CHR ''{'' \<notin> set s \<or> CHR ''}'' \<notin> set s \<longrightarrow> braceMatch s = None)"
proof -
  have "extractJsonText content
     = Inr (case braceMatch (fenceCandidate (trim content)) of
              Some m \<Rightarrow> m
            | None \<Rightarrow> fenceCandidate (trim content))"
    by (simp add: extractJsonText_def stripFences_eq split: option.splits)
  with braceMatch_span [of a z m] braceMatch_none [of s] show ?thesis by blast
qed

theorem extractJsonText_amended_witness:
  "extractJsonText ''```json Here it is: {} ```'' = Inr ''{}''
   \<and> braceMatch ''Here it is: {} and {}!'' = Some ''{} and {}''
   \<and> braceMatch ''no object'' = None"
  using extractJsonText_amended [of "''```json Here it is: {} ```''" "''Here it is: ''" "''!''"
      "''} and {''" "''no object''"]
  by (simp add: fenceCandidate_def trim_def isWhiteSpace_def startsWith_def braceMatch_def)

text \<open>
  The counterexample to C7 as stated: the answer \<^verbatim>\<open>```json Here it is: {} ```\<close> has a
  \<^verbatim>\<open>```json\<close> fence, the contents of the block are \<^verbatim>\<open>Here it is: {}\<close>, and the text that is
  parsed is \<^verbatim>\<open>{}\<close>.
\<close>

theorem extractJsonText_counterexample:
  "\<not> (\<forall>content. js_includes (trim content) ''```json'' \<longrightarrow>
         extractJsonText content = Inr (fenceCandidate (trim content)))"
proof
  assume "\<forall>content. js_includes (trim content) ''```json'' \<longrightarrow>
         extractJsonText content = Inr (fenceCandidate (trim content))"
  then have "js_includes (trim ''```json Here it is: {} ```'') ''```json'' \<longrightarrow>
         extractJsonText ''```json Here it is: {} ```'' = Inr (fenceCandidate (trim ''```json Here it is: {} ```''))"
    by blast
  then show False
    by (simp add: extractJsonText_def stripFences_def fencedText_def piece_def js_split_def
        fenceCandidate_def trim_def isWhiteSpace_def startsWith_def braceMatch_def)
qed

section \<open>Validation of the parsed object (C8)\<close>

text \<open>
  Claim C8. For every object that the provider's text parses to, validation succeeds, and
  in its result: a category that is not one of the four names (a string outside the set,
  a value that is not a string, or no category at all) becomes General; a category that
  is one of the four is kept; a missing summary becomes "No summary available"; missing
  events become the empty list.
\<close>

theorem analysisResult_validation:
  "\<exists>r. analysisResult (JObj kvs) = Inr r
     \<and> ((\<forall>s. map_of kvs ''category'' = Some (JStr s) \<longrightarrow> s \<notin> set validCategories) \<longrightarrow> category r = ''General'')
     \<and> (\<forall>s. map_of kvs ''category'' = Some (JStr s) \<and> s \<in> set validCategories \<longrightarrow> category r = s)
     \<and> (map_of kvs ''summary'' = None \<longrightarrow> summary r = JStr ''No summary available'')
     \<and> (map_of kvs ''events'' = None \<longrightarrow> events r = JArr [])"
  by (auto simp: analysisResult_def validatedCategory_def split: option.splits json.splits)

theorem analysisResult_validation_witness:
  "analysisResult (JObj [(''category'', JStr ''Urgent'')])
     = Inr \<lparr>category = ''General'', summary = JStr ''No summary available'', events = JArr []\<rparr>"
  using analysisResult_validation [of "[(''category'', JStr ''Urgent'')]"]
  by (auto simp: validCategories_def)

section \<open>The date of a message (C9)\<close>

text \<open>
  Claim C9. The date of a message is the date of the server's attributes when there is
  one, otherwise the date of the header when there is one, otherwise the current time;
  when the date so chosen is invalid, it is the current time. The stored date is always
  valid.
\<close>

theorem finalDate_priority:
  "finalDate (Some (Date t)) parsedDate now = Date t
   \<and> finalDate None (Some (Date t)) now = Date t
   \<and> finalDate None None now = Date now
   \<and> finalDate (Some InvalidDate) parsedDate now = Date now
   \<and> finalDate None (Some InvalidDate) now = Date now
   \<and> \<not> isNaN_getTime (finalDate imapDate parsedDate now)"
  by (auto simp: finalDate_def Let_def split: option.splits)

section \<open>The subject of a reply (C10)\<close>

lemma replySubject_idem: "replySubject (replySubject s) = replySubject s"
  by (simp add: replySubject_def startsWith_def)

text \<open>
  Claim C10. Whenever \<^verbatim>\<open>generateEmailReply\<close> returns, the subject it returns is the original
  subject when that starts with \<^verbatim>\<open>Re:\<close>, and the original subject after \<^verbatim>\<open>Re: \<close> otherwise.
  Applied to its own result the transformation changes nothing, and its result always
  starts with \<^verbatim>\<open>Re:\<close>, so the prefixes of chained replies do not pile up.
\<close>

theorem generateEmailReply_subject:
  "(\<forall>s b. generateEmailReply e subj bdy p r d = Inr (s, b) \<longrightarrow>
       s = (if startsWith subj ''Re:'' then subj else ''Re: '' @ subj))
   \<and> replySubject (replySubject subj) = replySubject subj
   \<and> startsWith (replySubject subj) ''Re:''"
proof -
  have a: "\<forall>s b. generateEmailReply e subj bdy p r d = Inr (s, b) \<longrightarrow> s = replySubject subj"
    by (auto simp: generateEmailReply_def Let_def split: if_splits sum.splits)
  have b: "replySubject subj = (if startsWith subj ''Re:'' then subj else ''Re: '' @ subj)"
    by (simp add: replySubject_def)
  have c: "startsWith (replySubject subj) ''Re:''"
    by (simp add: replySubject_def startsWith_def)
  from a b c replySubject_idem [of subj] show ?thesis by metis
qed

theorem generateEmailReply_subject_witness:
  "generateEmailReply providerUp ''Hello'' ''How are you?'' ''say thanks'' None None
     = Inr (''Re: Hello'', ''{}'')
   \<and> replySubject (replySubject ''Hello'') = ''Re: Hello''"
  using generateEmailReply_subject [of providerUp "''Hello''" "''How are you?''" "''say thanks''" None None]
  by (simp add: generateEmailReply_def providerUp_def apiKeyMissing_def responseContent_def
      response_ok_def choicesContent_def firstChoiceContent_def checkedContent_def trim_def
      isWhiteSpace_def truncateBody_def replySubject_def startsWith_def Let_def)

end
